theory Spec2Isabelle
  imports Main "HOL-Library.AList" "HOL-Library.Char_ord" "HOL-Library.List_Lexorder"
begin

section \<open>Python string primitives used by the build scripts\<close>

text \<open>
  Python \<open>str\<close> values are modelled as \<^typ>\<open>string\<close>, a character standing for the
  code point of the same number (0 to 255). The scripts only ever test for and insert
  ASCII characters; \<open>strip\<close> and the character classes of the patterns are modelled for
  the whole range, \<open>lower\<close> for the ASCII letters, as said at its definition.
\<close>

text \<open>\<open>s.startswith(p)\<close> and \<open>s.endswith(p)\<close>.\<close>

fun startswith :: "string \<Rightarrow> string \<Rightarrow> bool" where
  "startswith s [] = True"
| "startswith [] (p # ps) = False"
| "startswith (c # s) (p # ps) = (c = p \<and> startswith s ps)"

definition endswith :: "string \<Rightarrow> string \<Rightarrow> bool" where
  "endswith s p = startswith (rev s) (rev p)"

text \<open>
  \<open>s.replace(old, new)\<close>: every non-overlapping occurrence of \<open>old\<close>, found from the
  left, is replaced. For an empty \<open>old\<close> Python inserts \<open>new\<close> before every character
  and at the end.
\<close>

function replace_str :: "string \<Rightarrow> string \<Rightarrow> string \<Rightarrow> string" where
  "replace_str old new [] = (if old = [] then new else [])"
| "replace_str old new (c # s) =
     (if old = [] then new @ c # replace_str old new s
      else if startswith (c # s) old
           then new @ replace_str old new (drop (length old) (c # s))
      else c # replace_str old new s)"
  by pat_completeness auto
termination
  by (relation "measure (\<lambda>(old, new, s). length s)") auto

text \<open>
  \<open>s.strip()\<close> removes leading and trailing whitespace: the characters for which
  \<open>str.isspace\<close> holds. Below 256 these are the tab, line feed, vertical tab, form feed
  and carriage return, the separators 0x1C to 0x1F, the space, the next-line character
  0x85 and the no-break space 0xA0.
\<close>

definition is_space :: "char \<Rightarrow> bool" where
  "is_space c = (c \<in> set [CHR 0x09, CHR 0x0A, CHR 0x0B, CHR 0x0C, CHR 0x0D,
                           CHR 0x1C, CHR 0x1D, CHR 0x1E, CHR 0x1F, CHR 0x20,
                           CHR 0x85, CHR 0xA0])"

definition strip :: "string \<Rightarrow> string" where
  "strip s = rev (dropWhile is_space (rev (dropWhile is_space s)))"

text \<open>
  \<open>s.lower()\<close> on the ASCII letters. (No character outside ASCII lowers to one of the
  letters of the accepted image extensions, so membership tests against them agree with
  Python.)
\<close>

definition lower_char :: "char \<Rightarrow> char" where
  "lower_char c =
     (case map_of (zip ''ABCDEFGHIJKLMNOPQRSTUVWXYZ'' ''abcdefghijklmnopqrstuvwxyz'') c of
        Some d \<Rightarrow> d
      | None \<Rightarrow> c)"

definition lower :: "string \<Rightarrow> string" where
  "lower s = map lower_char s"

text \<open>\<open>str(n)\<close> for a non-negative integer: its decimal digits.\<close>

definition digit_char :: "nat \<Rightarrow> char" where
  "digit_char d = ''0123456789'' ! d"

fun str_nat :: "nat \<Rightarrow> string" where
  "str_nat n = (if n < 10 then [digit_char n] else str_nat (n div 10) @ [digit_char (n mod 10)])"

declare str_nat.simps [simp del]

subsection \<open>Paths (POSIX flavour of os.path and pathlib)\<close>

text \<open>\<open>s.split(sep)\<close> for a one-character separator.\<close>

fun split_on :: "char \<Rightarrow> string \<Rightarrow> string list" where
  "split_on sep [] = [[]]"
| "split_on sep (c # s) =
     (if c = sep then [] # split_on sep s
      else (case split_on sep s of
              w # ws \<Rightarrow> (c # w) # ws
            | [] \<Rightarrow> [[c]]))"

text \<open>\<open>os.path.basename(p)\<close>: what follows the last slash.\<close>

definition basename :: "string \<Rightarrow> string" where
  "basename p = last (split_on CHR ''/'' p)"

text \<open>
  \<open>Path(p).name\<close>: the last component of the path, where empty components and single
  dots are dropped while parsing; the empty string when there is none.
\<close>

definition path_name :: "string \<Rightarrow> string" where
  "path_name p =
     (case rev (filter (\<lambda>part. part \<noteq> [] \<and> part \<noteq> ''.'') (split_on CHR ''/'' p)) of
        [] \<Rightarrow> []
      | name # _ \<Rightarrow> name)"

text \<open>\<open>s.rfind(c)\<close>, with \<open>None\<close> for Python's \<open>-1\<close>.\<close>

primrec rfind :: "char \<Rightarrow> string \<Rightarrow> nat option" where
  "rfind c [] = None"
| "rfind c (x # xs) =
     (case rfind c xs of
        Some i \<Rightarrow> Some (Suc i)
      | None \<Rightarrow> if x = c then Some 0 else None)"

text \<open>
  The suffix and the stem of a file name, as \<open>pathlib\<close> computes them: the suffix starts at
  the last dot, unless that dot is the first or the last character of the name.
\<close>

definition name_suffix :: "string \<Rightarrow> string" where
  "name_suffix name =
     (case rfind CHR ''.'' name of
        None \<Rightarrow> []
      | Some i \<Rightarrow> if 0 < i \<and> i < length name - 1 then drop i name else [])"

definition name_stem :: "string \<Rightarrow> string" where
  "name_stem name =
     (case rfind CHR ''.'' name of
        None \<Rightarrow> name
      | Some i \<Rightarrow> if 0 < i \<and> i < length name - 1 then take i name else name)"

definition path_suffix :: "string \<Rightarrow> string" where
  "path_suffix p = name_suffix (path_name p)"

section \<open>Filename sanitizer (create_epub_complete.py, sanitize_filename)\<close>

text \<open>
  \<^verbatim>\<open>
  sanitized = filename.replace(' ', '-')
  sanitized = sanitized.replace('(', '').replace(')', '')
  \<close>
\<close>

definition sanitize_filename :: "string \<Rightarrow> string" where
  "sanitize_filename filename =
     replace_str '')'' '''' (replace_str ''('' '''' (replace_str '' '' ''-'' filename))"

lemma startswith_single: "startswith (c # s) [a] = (c = a)"
  by simp

lemma replace_char_map:
  "replace_str [a] [b] s = map (\<lambda>c. if c = a then b else c) s"
  by (induction s) auto

lemma replace_char_filter:
  "replace_str [a] [] s = filter (\<lambda>c. c \<noteq> a) s"
  by (induction s) auto

lemma sanitize_filename_alt:
  "sanitize_filename s =
     filter (\<lambda>c. c \<noteq> CHR '')'')
       (filter (\<lambda>c. c \<noteq> CHR ''('')
         (map (\<lambda>c. if c = CHR '' '' then CHR ''-'' else c) s))"
  by (simp add: sanitize_filename_def replace_char_map replace_char_filter)

text \<open>
  C10. The filename sanitizer is idempotent, and its result contains no space and no
  parenthesis.
\<close>

theorem sanitize_filename_idempotent:
  "sanitize_filename (sanitize_filename s) = sanitize_filename s
   \<and> CHR '' '' \<notin> set (sanitize_filename s)
   \<and> CHR ''('' \<notin> set (sanitize_filename s)
   \<and> CHR '')'' \<notin> set (sanitize_filename s)"
proof -
  have clean: "CHR '' '' \<notin> set (sanitize_filename s)
     \<and> CHR ''('' \<notin> set (sanitize_filename s) \<and> CHR '')'' \<notin> set (sanitize_filename s)"
    by (auto simp: sanitize_filename_alt)
  have stable: "sanitize_filename t = t"
    if "CHR '' '' \<notin> set t" "CHR ''('' \<notin> set t" "CHR '')'' \<notin> set t" for t
  proof -
    have "map (\<lambda>c. if c = CHR '' '' then CHR ''-'' else c) t = t"
      using that(1) by (induction t) auto
    moreover have "filter (\<lambda>c. c \<noteq> CHR ''('') t = t"
      using that(2) by (induction t) auto
    moreover have "filter (\<lambda>c. c \<noteq> CHR '')'') t = t"
      using that(3) by (induction t) auto
    ultimately show ?thesis by (simp add: sanitize_filename_alt)
  qed
  from clean stable show ?thesis by blast
qed

section \<open>Cover-image validation (check_metadata.py, check_cover_image)\<close>

text \<open>
  The disk is a map from a path to the size in bytes of what is stored there
  (\<open>os.path.exists\<close> and \<open>os.path.getsize\<close>). The two results of the function, the flag
  and the message, are kept as a pair; the message is a value that carries what the
  formatted text carries (the path, the size or the extension).
\<close>

datatype cover_message =
    NoCoverPath
  | CoverNotFound string
  | CoverTooLarge nat
  | CoverFormatNotSupported string
  | CoverImageOK

definition check_cover_image :: "(string \<rightharpoonup> nat) \<Rightarrow> string \<Rightarrow> bool \<times> cover_message" where
  "check_cover_image disk cover_path =
     (if cover_path = [] then (False, NoCoverPath)
      else case disk cover_path of
        None \<Rightarrow> (False, CoverNotFound cover_path)
      | Some file_size \<Rightarrow>
          if file_size > 5 * 1024 * 1024 then (False, CoverTooLarge file_size)
          else let ext = lower (path_suffix cover_path) in
            if ext \<notin> set [''.jpg'', ''.jpeg'', ''.png'']
            then (False, CoverFormatNotSupported ext)
            else (True, CoverImageOK))"

text \<open>
  C6. Cover validation fails exactly when the path is empty, nothing exists at the path,
  the size exceeds 5 MiB, or the lower-cased extension is none of .jpg, .jpeg, .png. A
  file of 6 MiB fails with the size-exceeded message; a PNG of 2 MiB passes.
\<close>

theorem check_cover_image_fails_exactly:
  "(fst (check_cover_image disk p) = False \<longleftrightarrow>
      (p = [] \<or> disk p = None \<or> (\<exists>n. disk p = Some n \<and> n > 5 * 1024 * 1024)
       \<or> lower (path_suffix p) \<notin> {''.jpg'', ''.jpeg'', ''.png''}))
   \<and> (p \<noteq> [] \<and> disk p = Some (6 * 1024 * 1024) \<longrightarrow>
        check_cover_image disk p = (False, CoverTooLarge (6 * 1024 * 1024)))
   \<and> (p \<noteq> [] \<and> disk p = Some (2 * 1024 * 1024) \<and> lower (path_suffix p) = ''.png'' \<longrightarrow>
        check_cover_image disk p = (True, CoverImageOK))"
  by (auto simp: check_cover_image_def Let_def split: option.splits)

theorem check_cover_image_fails_exactly_witness:
  "check_cover_image [''images/big.jpg'' \<mapsto> 6291456] ''images/big.jpg''
     = (False, CoverTooLarge 6291456)
   \<and> check_cover_image [''images/Cover.PNG'' \<mapsto> 2097152] ''images/Cover.PNG''
     = (True, CoverImageOK)
   \<and> fst (check_cover_image [''notes.txt'' \<mapsto> 10] ''notes.txt'') = False"
proof -
  have suf: "lower (path_suffix ''images/Cover.PNG'') = ''.png''"
    by (simp add: path_suffix_def path_name_def name_suffix_def lower_def lower_char_def)
  have other: "lower (path_suffix ''notes.txt'') \<notin> {''.jpg'', ''.jpeg'', ''.png''}"
    by (simp add: path_suffix_def path_name_def name_suffix_def lower_def lower_char_def)
  show ?thesis
    using check_cover_image_fails_exactly
            [of "[''images/big.jpg'' \<mapsto> 6291456]" "''images/big.jpg''"]
          check_cover_image_fails_exactly
            [of "[''images/Cover.PNG'' \<mapsto> 2097152]" "''images/Cover.PNG''"]
          check_cover_image_fails_exactly
            [of "[''notes.txt'' \<mapsto> 10]" "''notes.txt''"]
          suf other
    by simp
qed

section \<open>Metadata resolver (check_metadata.py)\<close>

text \<open>
  The metadata record is a Python dict with string values. It is modelled as an
  association list in insertion order: \<open>d[k] = v\<close> is \<^const>\<open>AList.update\<close> (the value is
  replaced in place, a new key is appended), \<open>k in d\<close> and \<open>d[k]\<close> are \<^const>\<open>map_of\<close>.
  A value is falsy when it is the empty string.
\<close>

type_synonym metadata = "(string \<times> string) list"

text \<open>\<open>d.update(other)\<close>.\<close>

definition dict_update :: "metadata \<Rightarrow> metadata \<Rightarrow> metadata" where
  "dict_update d other = fold (\<lambda>(k, v). AList.update k v) other d"

definition required_fields :: "(string \<times> string) list" where
  "required_fields =
     [(''title'', ''Book Title''),
      (''author'', ''Author Name''),
      (''publisher'', ''Publisher Name''),
      (''publication_date'', ''Publication Year''),
      (''cover_image'', ''Cover Image Path'')]"

definition check_required_metadata :: "metadata \<Rightarrow> (string \<times> string) list" where
  "check_required_metadata metadata =
     filter (\<lambda>(field, description).
               case map_of metadata field of None \<Rightarrow> True | Some v \<Rightarrow> v = [])
            required_fields"

text \<open>
  The console: the lines still waiting on standard input, and what the script has shown
  so far. \<open>input(prompt)\<close> shows the prompt and takes the next line; at the end of the
  input it raises \<open>EOFError\<close>.
\<close>

datatype event =
    MissingCount nat
  | MissingHeader
  | Asked string
  | FieldIsRequired
  | OptionalHeader
  | MetadataSaved

datatype io_error = EOFError

type_synonym console = "string list \<times> event list"

definition show_event :: "event \<Rightarrow> console \<Rightarrow> console" where
  "show_event e con = (fst con, snd con @ [e])"

text \<open>
  \<^verbatim>\<open>
  while True:
      value = input(f"{description}: ").strip()
      if value:
          metadata[field] = value
          break
      print("This field is required. Please provide a value.")
  \<close>
  The loop returns the value it accepted; the caller stores it.
\<close>

fun ask_required :: "string \<Rightarrow> console \<Rightarrow> io_error + (string \<times> console)" where
  "ask_required description ([], shown) = Inl EOFError"
| "ask_required description (line # rest, shown) =
     (let value = strip line; shown' = shown @ [Asked (description @ '': '')] in
      if value \<noteq> [] then Inr (value, (rest, shown'))
      else ask_required description (rest, shown' @ [FieldIsRequired]))"

fun prompt_required ::
  "(string \<times> string) list \<Rightarrow> metadata \<Rightarrow> console \<Rightarrow> io_error + (metadata \<times> console)" where
  "prompt_required [] metadata con = Inr (metadata, con)"
| "prompt_required ((field, description) # more) metadata con =
     (case ask_required description con of
        Inl e \<Rightarrow> Inl e
      | Inr (value, con') \<Rightarrow> prompt_required more (AList.update field value metadata) con')"

definition optional_fields :: "(string \<times> string) list" where
  "optional_fields =
     [(''subtitle'', ''Book Subtitle''),
      (''tags'', ''Keywords/Tags (comma-separated)''),
      (''description'', ''Book Description''),
      (''language'', ''Language (default: en)''),
      (''isbn'', ''ISBN Number'')]"

fun prompt_optional ::
  "(string \<times> string) list \<Rightarrow> metadata \<Rightarrow> console \<Rightarrow> io_error + (metadata \<times> console)" where
  "prompt_optional [] metadata con = Inr (metadata, con)"
| "prompt_optional ((field, description) # more) metadata ([], shown) = Inl EOFError"
| "prompt_optional ((field, description) # more) metadata (line # rest, shown) =
     (let value = strip line; con' = (rest, shown @ [Asked (description @ '': '')]) in
      prompt_optional more
        (if value \<noteq> [] then AList.update field value metadata
         else if field = ''language'' then AList.update field ''en'' metadata
         else metadata)
        con')"

definition prompt_for_missing_metadata ::
  "(string \<times> string) list \<Rightarrow> console \<Rightarrow> io_error + (metadata \<times> console)" where
  "prompt_for_missing_metadata missing_fields con =
     (case prompt_required missing_fields [] (show_event MissingHeader con) of
        Inl e \<Rightarrow> Inl e
      | Inr (metadata, con') \<Rightarrow>
          prompt_optional optional_fields metadata (show_event OptionalHeader con'))"

text \<open>
  The part of \<open>main\<close> between loading the record and checking the cover: the missing
  required fields are computed, asked for, merged into the record, and the merged record
  is written back. The second component of the result is what was written to
  \<open>book_metadata.json\<close> (\<open>None\<close> when nothing was missing and the file is left alone).
  The write itself is taken to succeed.
\<close>

definition resolve_metadata ::
  "metadata \<Rightarrow> console \<Rightarrow> io_error + (metadata \<times> metadata option \<times> console)" where
  "resolve_metadata metadata con =
     (let missing_fields = check_required_metadata metadata in
      if missing_fields \<noteq> [] then
        (case prompt_for_missing_metadata missing_fields
                (show_event (MissingCount (length missing_fields)) con) of
           Inl e \<Rightarrow> Inl e
         | Inr (new_metadata, con') \<Rightarrow>
             let merged = dict_update metadata new_metadata in
             Inr (merged, Some merged, show_event MetadataSaved con'))
      else Inr (metadata, None, con))"

text \<open>The prompts a run has shown, in order.\<close>

fun prompts_shown :: "event list \<Rightarrow> string list" where
  "prompts_shown [] = []"
| "prompts_shown (Asked p # es) = p # prompts_shown es"
| "prompts_shown (e # es) = prompts_shown es"

text \<open>A persisted record that lacks only the publisher.\<close>

definition example_metadata :: metadata where
  "example_metadata =
     [(''title'', ''T''), (''author'', ''A''), (''publication_date'', ''2025''),
      (''cover_image'', ''c.jpg'')]"

lemma ask_required_blanks:
  "\<forall>l\<in>set blanks. strip l = [] \<Longrightarrow> strip v \<noteq> [] \<Longrightarrow>
   ask_required d (blanks @ v # rest, shown) =
     Inr (strip v, (rest, shown @ concat (map (\<lambda>l. [Asked (d @ '': ''), FieldIsRequired]) blanks)
                           @ [Asked (d @ '': '')]))"
  by (induction blanks arbitrary: shown) (simp_all add: Let_def)

lemma prompt_optional_enough:
  "length lines = length fields \<Longrightarrow>
   \<exists>md'. prompt_optional fields md (lines @ rest, shown) =
            Inr (md', (rest, shown @ map (\<lambda>(f, d). Asked (d @ '': '')) fields))
       \<and> (\<forall>k. k \<notin> fst ` set fields \<longrightarrow> map_of md' k = map_of md k)
       \<and> (distinct (map fst md) \<longrightarrow> distinct (map fst md'))"
proof (induction fields arbitrary: lines md shown)
  case Nil
  then show ?case by simp
next
  case (Cons fd fields)
  obtain f d where fd: "fd = (f, d)" by (cases fd)
  from Cons.prems obtain l ls where lines: "lines = l # ls" "length ls = length fields"
    by (cases lines) auto
  let ?md = "(if strip l \<noteq> [] then AList.update f (strip l) md
         else if f = ''language'' then AList.update f ''en'' md
         else md)"
  from Cons.IH[OF lines(2), where md = ?md and shown = "shown @ [Asked (d @ '': '')]"]
  obtain md' where md': "prompt_optional fields ?md (ls @ rest, shown @ [Asked (d @ '': '')]) =
            Inr (md', (rest, (shown @ [Asked (d @ '': '')]) @ map (\<lambda>(f, d). Asked (d @ '': '')) fields))"
    "\<forall>k. k \<notin> fst ` set fields \<longrightarrow> map_of md' k = map_of ?md k"
    "distinct (map fst ?md) \<longrightarrow> distinct (map fst md')" by blast
  have "\<forall>k. k \<notin> fst ` set (fd # fields) \<longrightarrow> map_of md' k = map_of md k"
    using md'(2) by (auto simp: fd update_conv')
  moreover have "distinct (map fst md) \<longrightarrow> distinct (map fst md')"
    using md'(3) by (auto simp: distinct_update)
  ultimately show ?case using md'(1) by (simp add: fd lines Let_def)
qed
lemma map_of_dict_update:
  "map_of (dict_update d other) = map_of d ++ map_of (rev other)"
  unfolding dict_update_def
proof (induction other arbitrary: d)
  case Nil
  then show ?case by simp
next
  case (Cons kv other)
  obtain k v where kv: "kv = (k, v)" by (cases kv)
  show ?case
    by (auto simp: kv Cons.IH update_conv' map_add_def fun_eq_iff split: option.splits)
qed

lemma map_of_rev_distinct:
  "distinct (map fst xs) \<Longrightarrow> map_of (rev xs) = map_of xs"
  by (induction xs) (auto simp: map_add_def fun_eq_iff split: option.splits dest: map_of_SomeD intro: rev_image_eqI)

lemma prompts_shown_append: "prompts_shown (xs @ ys) = prompts_shown xs @ prompts_shown ys"
  by (induction xs rule: prompts_shown.induct) simp_all

lemma prompts_shown_rejections:
  "prompts_shown (concat (map (\<lambda>l. [Asked p, FieldIsRequired]) blanks)) = replicate (length blanks) p"
  by (induction blanks) simp_all

lemma count_rejections:
  "length (filter (\<lambda>e. e = FieldIsRequired) (concat (map (\<lambda>l. [Asked p, FieldIsRequired]) blanks)))
     = length blanks"
  by (induction blanks) simp_all

lemma filter_asked_fields:
  "filter (\<lambda>e. e = FieldIsRequired) (map (\<lambda>(f, d). Asked (d @ '': '')) fields) = []"
  by (induction fields) auto

lemma prompts_shown_fields:
  "prompts_shown (map (\<lambda>(f, d). Asked (d @ '': '')) fields) = map (\<lambda>(f, d). d @ '': '') fields"
  by (induction fields) auto

text \<open>
  C7, as the code has it. For a record that lacks only the publisher, the resolver asks
  for no other required field: it asks for the publisher, answers every blank line with
  the "field is required" message and asks again, and takes the first line that is not
  blank. It then asks once for each of the five optional fields (subtitle, tags,
  description, language, ISBN), and writes back the merged record, in which the publisher
  is the stripped answer and every key that was not asked for is as it was.
\<close>

theorem resolve_metadata_missing_publisher:
  assumes missing: "check_required_metadata md = [(''publisher'', ''Publisher Name'')]"
    and blanks: "\<forall>l\<in>set blanks. strip l = []"
    and given: "strip v \<noteq> []"
    and opts: "length opts = 5"
  shows "\<exists>merged shown.
           resolve_metadata md (blanks @ v # opts @ rest, []) = Inr (merged, Some merged, (rest, shown))
         \<and> prompts_shown shown =
             replicate (Suc (length blanks)) ''Publisher Name: ''
             @ [''Book Subtitle: '', ''Keywords/Tags (comma-separated): '', ''Book Description: '',
                ''Language (default: en): '', ''ISBN Number: '']
         \<and> length (filter (\<lambda>e. e = FieldIsRequired) shown) = length blanks
         \<and> map_of merged ''publisher'' = Some (strip v)
         \<and> (\<forall>k. k \<notin> {''publisher'', ''subtitle'', ''tags'', ''description'', ''language'', ''isbn''}
                \<longrightarrow> map_of merged k = map_of md k)"
proof -
  let ?p = "''Publisher Name: ''"
  let ?rej = "concat (map (\<lambda>l. [Asked ?p, FieldIsRequired]) blanks)"
  let ?s1 = "[MissingCount 1, MissingHeader] @ ?rej @ [Asked ?p]"
  have req: "prompt_required [(''publisher'', ''Publisher Name'')] []
               (blanks @ v # opts @ rest, [MissingCount 1, MissingHeader])
             = Inr ([(''publisher'', strip v)], (opts @ rest, ?s1))"
    using ask_required_blanks[OF blanks given, of "''Publisher Name''" "opts @ rest"
            "[MissingCount 1, MissingHeader]"]
    by simp
  have len: "length opts = length optional_fields"
    using opts by (simp add: optional_fields_def)
  from prompt_optional_enough[OF len, of "[(''publisher'', strip v)]" rest "?s1 @ [OptionalHeader]"]
  obtain new where new:
    "prompt_optional optional_fields [(''publisher'', strip v)] (opts @ rest, ?s1 @ [OptionalHeader])
       = Inr (new, (rest, (?s1 @ [OptionalHeader]) @ map (\<lambda>(f, d). Asked (d @ '': '')) optional_fields))"
    "\<forall>k. k \<notin> fst ` set optional_fields \<longrightarrow> map_of new k = map_of [(''publisher'', strip v)] k"
    "distinct (map fst new)"
    by auto
  let ?shown = "(?s1 @ [OptionalHeader]) @ map (\<lambda>(f, d). Asked (d @ '': '')) optional_fields @ [MetadataSaved]"
  let ?merged = "dict_update md new"
  have run: "resolve_metadata md (blanks @ v # opts @ rest, []) = Inr (?merged, Some ?merged, (rest, ?shown))"
    using req new(1)
    by (simp add: resolve_metadata_def missing prompt_for_missing_metadata_def show_event_def Let_def)
  have keys: "fst ` set optional_fields = {''subtitle'', ''tags'', ''description'', ''language'', ''isbn''}"
    by (auto simp: optional_fields_def)
  have m: "map_of ?merged = map_of md ++ map_of new"
    by (simp add: map_of_dict_update map_of_rev_distinct[OF new(3)])
  have pub: "map_of new ''publisher'' = Some (strip v)"
    using new(2) keys by simp
  have other: "map_of new k = None"
    if "k \<notin> {''publisher'', ''subtitle'', ''tags'', ''description'', ''language'', ''isbn''}" for k
    using new(2) keys that by simp
  have p1: "prompts_shown ?shown = replicate (Suc (length blanks)) ?p
             @ [''Book Subtitle: '', ''Keywords/Tags (comma-separated): '', ''Book Description: '',
                ''Language (default: en): '', ''ISBN Number: '']"
    by (simp add: prompts_shown_append prompts_shown_rejections prompts_shown_fields
          replicate_append_same optional_fields_def)
  have p2: "length (filter (\<lambda>e. e = FieldIsRequired) ?shown) = length blanks"
    by (simp add: count_rejections filter_asked_fields)
  have p3: "map_of ?merged ''publisher'' = Some (strip v)"
    by (simp add: m map_add_def pub)
  have p4: "\<forall>k. k \<notin> {''publisher'', ''subtitle'', ''tags'', ''description'', ''language'', ''isbn''}
                \<longrightarrow> map_of ?merged k = map_of md k"
    using other by (simp add: m map_add_def)
  from run p1 p2 p3 p4 show ?thesis by blast
qed

theorem resolve_metadata_missing_publisher_witness:
  "check_required_metadata example_metadata = [(''publisher'', ''Publisher Name'')]
   \<and> (\<exists>merged shown.
         resolve_metadata example_metadata ([''  '', [CHR 0xA0], '' Acme Press '', '''', ''a,b'', '''', '''', ''''], [])
           = Inr (merged, Some merged, ([], shown))
       \<and> prompts_shown shown =
           [''Publisher Name: '', ''Publisher Name: '', ''Publisher Name: '',
            ''Book Subtitle: '',
            ''Keywords/Tags (comma-separated): '', ''Book Description: '',
            ''Language (default: en): '', ''ISBN Number: '']
       \<and> map_of merged ''publisher'' = Some ''Acme Press''
       \<and> map_of merged ''title'' = Some ''T'')"
proof -
  have missing: "check_required_metadata example_metadata = [(''publisher'', ''Publisher Name'')]"
    by (simp add: check_required_metadata_def required_fields_def example_metadata_def)
  have blanks: "\<forall>l\<in>set [''  '', [CHR 0xA0]]. strip l = []"
    by (simp add: strip_def is_space_def)
  have v: "strip '' Acme Press '' = ''Acme Press''"
    by (simp add: strip_def is_space_def)
  have given: "strip '' Acme Press '' \<noteq> []"
    by (simp add: v)
  have opts: "length ['''', ''a,b'', '''', '''', ''''] = 5"
    by simp
  have t: "map_of example_metadata ''title'' = Some ''T''"
    by (simp add: example_metadata_def)
  show ?thesis
    using resolve_metadata_missing_publisher[OF missing blanks given opts, of "[]"] missing v t
    by auto
qed

text \<open>
  C7 as stated ("exactly that field and no others") fails: with the publisher answered
  at once, five more prompts follow, and a run whose input ends after the publisher's
  answer stops with \<open>EOFError\<close> at the first optional prompt, before anything is written.
\<close>

theorem resolve_metadata_only_publisher_counterexample:
  "check_required_metadata example_metadata = [(''publisher'', ''Publisher Name'')]
   \<and> resolve_metadata example_metadata ([''Acme Press'', '''', '''', '''', '''', ''''], []) =
       Inr (example_metadata @ [(''publisher'', ''Acme Press''), (''language'', ''en'')],
            Some (example_metadata @ [(''publisher'', ''Acme Press''), (''language'', ''en'')]),
            ([], [MissingCount 1, MissingHeader, Asked ''Publisher Name: '', OptionalHeader,
                  Asked ''Book Subtitle: '', Asked ''Keywords/Tags (comma-separated): '',
                  Asked ''Book Description: '', Asked ''Language (default: en): '',
                  Asked ''ISBN Number: '', MetadataSaved]))
   \<and> resolve_metadata example_metadata ([''Acme Press''], []) = Inl EOFError"
  by (simp add: resolve_metadata_def check_required_metadata_def required_fields_def
        example_metadata_def prompt_for_missing_metadata_def show_event_def optional_fields_def
        dict_update_def strip_def is_space_def Let_def)

section \<open>Archive assembler (create_epub_complete.py, create_mimetype and create_epub_file)\<close>

text \<open>
  The build directory \<open>epub_build\<close> as the assembler reads it: the \<open>mimetype\<close> file (absent
  until it is created), and the files that \<open>os.walk\<close> finds under \<open>META-INF\<close> and under
  \<open>OEBPS\<close>, each with its path below that directory and its content, in the order of the
  walk.
\<close>

record build_tree =
  mimetype_file :: "string option"
  meta_inf :: "(string \<times> string) list"
  oebps :: "(string \<times> string) list"

datatype compress_type = ZIP_STORED | ZIP_DEFLATED

record zip_entry =
  arcname :: string
  compress :: compress_type
  content :: string

datatype py_error = FileNotFoundError | IndexError | AttributeError

definition create_mimetype :: "build_tree \<Rightarrow> build_tree" where
  "create_mimetype tree = tree\<lparr>mimetype_file := Some ''application/epub+zip''\<rparr>"

text \<open>
  The writing half of \<open>create_epub_file\<close>. The archive is opened with \<open>ZIP_DEFLATED\<close> as
  its default method; the first \<open>write\<close> overrides it with \<open>ZIP_STORED\<close>. Writing a file that
  does not exist raises \<open>FileNotFoundError\<close>.
\<close>

definition walk_entries :: "string \<Rightarrow> (string \<times> string) list \<Rightarrow> zip_entry list" where
  "walk_entries dir files =
     map (\<lambda>(path, data). \<lparr>arcname = dir @ ''/'' @ path, compress = ZIP_DEFLATED, content = data\<rparr>)
         files"

definition write_epub :: "build_tree \<Rightarrow> py_error + zip_entry list" where
  "write_epub tree =
     (case mimetype_file tree of
        None \<Rightarrow> Inl FileNotFoundError
      | Some data \<Rightarrow>
          Inr (\<lparr>arcname = ''mimetype'', compress = ZIP_STORED, content = data\<rparr>
               # walk_entries ''META-INF'' (meta_inf tree)
               @ walk_entries ''OEBPS'' (oebps tree)))"

text \<open>
  The checking half: the archive is opened again and the first name of its listing is
  compared with \<open>mimetype\<close>. Either way a line is printed and the function goes on;
  \<open>file_list[0]\<close> on an empty listing raises \<open>IndexError\<close>.
\<close>

datatype report =
    MimetypeIsFirst
  | WarningMimetypeNotFirst string
  | EpubCreated string

definition verify_mimetype_first :: "string list \<Rightarrow> py_error + report" where
  "verify_mimetype_first file_list =
     (case file_list of
        [] \<Rightarrow> Inl IndexError
      | first # others \<Rightarrow>
          Inr (if first = ''mimetype'' then MimetypeIsFirst else WarningMimetypeNotFirst first))"

text \<open>
  What \<open>namelist()\<close> returns for the archive just written is the ZIP library's business,
  so \<open>create_epub_file\<close> takes it as the parameter \<open>namelist\<close>; the library's documented
  behaviour is \<open>zip_namelist\<close>, the names in the order written. The result is the returned
  output name, the archive written, and the lines printed after writing.
\<close>

definition zip_namelist :: "zip_entry list \<Rightarrow> string list" where
  "zip_namelist archive = map arcname archive"

text \<open>A listing in another order than written, to exercise the warning.\<close>

definition reversed_namelist :: "zip_entry list \<Rightarrow> string list" where
  "reversed_namelist archive = rev (map arcname archive)"

definition create_epub_file ::
  "(zip_entry list \<Rightarrow> string list) \<Rightarrow> string \<Rightarrow> build_tree
     \<Rightarrow> py_error + (string \<times> zip_entry list \<times> report list)" where
  "create_epub_file namelist output_name tree =
     (case write_epub tree of
        Inl e \<Rightarrow> Inl e
      | Inr archive \<Rightarrow>
          (case verify_mimetype_first (namelist archive) of
             Inl e \<Rightarrow> Inl e
           | Inr line \<Rightarrow> Inr (output_name, archive, [line, EpubCreated output_name])))"

text \<open>
  \<open>main\<close> builds the two archives inside one \<open>try\<close> block and returns \<open>True\<close> unless an
  exception escapes (then \<open>False\<close>). The two trees are the build directory as it stands when
  each build reaches \<open>create_epub_file\<close>.
\<close>

definition main_complete ::
  "(zip_entry list \<Rightarrow> string list) \<Rightarrow> build_tree \<Rightarrow> build_tree \<Rightarrow> bool" where
  "main_complete namelist gumroad_tree kdp_tree =
     (case create_epub_file namelist ''Escape_The_Hell_Myth_Gumroad.epub'' gumroad_tree of
        Inl e \<Rightarrow> False
      | Inr gumroad_epub \<Rightarrow>
          (case create_epub_file namelist ''Escape_The_Hell_Myth_KDP.epub'' kdp_tree of
             Inl e \<Rightarrow> False
           | Inr kdp_epub \<Rightarrow> True))"

lemma mimetype_not_walked:
  "''mimetype'' \<notin> set (map arcname (walk_entries ''META-INF'' files))"
  "''mimetype'' \<notin> set (map arcname (walk_entries ''OEBPS'' files))"
  by (auto simp: walk_entries_def)

text \<open>
  C2. Once \<open>create_mimetype\<close> has run, whatever the later steps put under \<open>META-INF\<close> and
  \<open>OEBPS\<close>, the archive is produced, its first entry is named \<open>mimetype\<close>, is stored, and
  holds \<open>application/epub+zip\<close>; the other entries, one per file found, follow it, and
  none of them is named \<open>mimetype\<close>.
\<close>

theorem create_epub_file_mimetype_first:
  "\<exists>others.
     create_epub_file zip_namelist output_name
         ((create_mimetype tree)\<lparr>meta_inf := m, oebps := ob\<rparr>)
       = Inr (output_name,
              \<lparr>arcname = ''mimetype'', compress = ZIP_STORED, content = ''application/epub+zip''\<rparr>
                # others,
              [MimetypeIsFirst, EpubCreated output_name])
   \<and> ''mimetype'' \<notin> set (map arcname others)
   \<and> length others = length m + length ob"
proof -
  let ?others = "walk_entries ''META-INF'' m @ walk_entries ''OEBPS'' ob"
  have "create_epub_file zip_namelist output_name
         ((create_mimetype tree)\<lparr>meta_inf := m, oebps := ob\<rparr>)
       = Inr (output_name,
              \<lparr>arcname = ''mimetype'', compress = ZIP_STORED, content = ''application/epub+zip''\<rparr>
                # ?others,
              [MimetypeIsFirst, EpubCreated output_name])"
    by (simp add: create_epub_file_def write_epub_def create_mimetype_def
          verify_mimetype_first_def zip_namelist_def)
  moreover have "''mimetype'' \<notin> set (map arcname ?others)"
    using mimetype_not_walked by simp
  moreover have "length ?others = length m + length ob"
    by (simp add: walk_entries_def)
  ultimately show ?thesis by blast
qed

text \<open>
  C8. When the listing of the reopened archive starts with another name than \<open>mimetype\<close>,
  \<open>create_epub_file\<close> prints the warning and still returns the output name, and \<open>main\<close>
  still returns \<open>True\<close>.
\<close>

theorem create_epub_file_warns_and_returns:
  assumes "write_epub gumroad_tree = Inr a1" and "namelist a1 = first1 # others1"
    and "first1 \<noteq> ''mimetype''"
    and "write_epub kdp_tree = Inr a2" and "namelist a2 = first2 # others2"
    and "first2 \<noteq> ''mimetype''"
  shows "create_epub_file namelist output_name gumroad_tree
           = Inr (output_name, a1, [WarningMimetypeNotFirst first1, EpubCreated output_name])
         \<and> main_complete namelist gumroad_tree kdp_tree = True"
  using assms
  by (simp add: create_epub_file_def main_complete_def verify_mimetype_first_def)

theorem create_epub_file_warns_and_returns_witness:
  "create_epub_file reversed_namelist ''book.epub''
       \<lparr>mimetype_file = Some ''application/epub+zip'',
        meta_inf = [(''container.xml'', ''<container/>'')],
        oebps = [(''content.opf'', ''<package/>'')]\<rparr>
     = Inr (''book.epub'',
            [\<lparr>arcname = ''mimetype'', compress = ZIP_STORED, content = ''application/epub+zip''\<rparr>,
             \<lparr>arcname = ''META-INF/container.xml'', compress = ZIP_DEFLATED, content = ''<container/>''\<rparr>,
             \<lparr>arcname = ''OEBPS/content.opf'', compress = ZIP_DEFLATED, content = ''<package/>''\<rparr>],
            [WarningMimetypeNotFirst ''OEBPS/content.opf'', EpubCreated ''book.epub''])
   \<and> main_complete reversed_namelist
       \<lparr>mimetype_file = Some ''application/epub+zip'',
        meta_inf = [(''container.xml'', ''<container/>'')],
        oebps = [(''content.opf'', ''<package/>'')]\<rparr>
       \<lparr>mimetype_file = Some ''application/epub+zip'',
        meta_inf = [(''container.xml'', ''<container/>'')],
        oebps = [(''content.opf'', ''<package/>'')]\<rparr> = True"
proof -
  let ?tree = "\<lparr>mimetype_file = Some ''application/epub+zip'',
        meta_inf = [(''container.xml'', ''<container/>'')],
        oebps = [(''content.opf'', ''<package/>'')]\<rparr>"
  let ?a = "[\<lparr>arcname = ''mimetype'', compress = ZIP_STORED, content = ''application/epub+zip''\<rparr>,
             \<lparr>arcname = ''META-INF/container.xml'', compress = ZIP_DEFLATED, content = ''<container/>''\<rparr>,
             \<lparr>arcname = ''OEBPS/content.opf'', compress = ZIP_DEFLATED, content = ''<package/>''\<rparr>]"
  have w: "write_epub ?tree = Inr ?a"
    by (simp add: write_epub_def walk_entries_def)
  have n: "reversed_namelist ?a
             = ''OEBPS/content.opf'' # [''META-INF/container.xml'', ''mimetype'']"
    by (simp add: reversed_namelist_def)
  have f: "''OEBPS/content.opf'' \<noteq> ''mimetype''"
    by simp
  show ?thesis
    using create_epub_file_warns_and_returns
            [where namelist = reversed_namelist and output_name = "''book.epub''", OF w n f w n f]
    by simp
qed

section \<open>HTML to XHTML converter: hyperlinks\<close>

text \<open>
  Both converters walk over the \<open>a\<close> elements of the body and rewrite the \<open>href\<close>
  attribute. An anchor is modelled by that attribute: \<open>None\<close> when the element has none.

  create_epub_complete.py:
  \<^verbatim>\<open>
  href = a.get('href', '')
  if href and href.endswith('.html'):
      new_href = href.replace('.html', '.xhtml')
      if new_href == 'index.xhtml':
          if is_cover: new_href = 'cover.xhtml'
          else:        new_href = '../cover.xhtml'
      a['href'] = new_href
  \<close>
\<close>

definition fix_internal_link :: "bool \<Rightarrow> string option \<Rightarrow> string option" where
  "fix_internal_link is_cover attr =
     (let href = (case attr of None \<Rightarrow> [] | Some h \<Rightarrow> h) in
      if href \<noteq> [] \<and> endswith href ''.html'' then
        (let new_href = replace_str ''.html'' ''.xhtml'' href in
         Some (if new_href = ''index.xhtml''
               then (if is_cover then ''cover.xhtml'' else ''../cover.xhtml'')
               else new_href))
      else attr)"

definition fix_internal_links :: "bool \<Rightarrow> string option list \<Rightarrow> string option list" where
  "fix_internal_links is_cover anchors = map (fix_internal_link is_cover) anchors"

text \<open>
  create_both_epubs.py, over the anchors that have an \<open>href\<close>:
  \<^verbatim>\<open>
  href = link.get('href', '')
  if href.endswith('.html') and not href.startswith('http'):
      link['href'] = href.replace('.html', '.xhtml')
  \<close>
\<close>

definition update_internal_link :: "string option \<Rightarrow> string option" where
  "update_internal_link attr =
     (case attr of
        None \<Rightarrow> None
      | Some href \<Rightarrow>
          if endswith href ''.html'' \<and> \<not> startswith href ''http''
          then Some (replace_str ''.html'' ''.xhtml'' href)
          else Some href)"

definition update_internal_links :: "string option list \<Rightarrow> string option list" where
  "update_internal_links anchors = map update_internal_link anchors"

lemma startswith_iff: "startswith a b \<longleftrightarrow> (\<exists>r. a = b @ r)"
  by (induction a b rule: startswith.induct) auto

lemma endswith_iff: "endswith s p \<longleftrightarrow> (\<exists>q. s = q @ p)"
  unfolding endswith_def startswith_iff
  by (metis rev_append rev_rev_ident)

lemma html_no_overlap:
  assumes "''.html'' @ r = q @ ''.html''"
  shows "\<exists>u. r = u @ ''.html'' \<or> r = []"
proof -
  from assms[unfolded append_eq_append_conv2]
  obtain us where "(''.html'' = q @ us \<and> us @ r = ''.html'') \<or> (''.html'' @ us = q \<and> r = us @ ''.html'')"
    by blast
  then show ?thesis
  proof
    assume c1: "''.html'' = q @ us \<and> us @ r = ''.html''"
    then have a: "us = take (length us) ''.html''"
      by (metis append_eq_conv_conj)
    have "length q + length us = 5"
      using c1[THEN conjunct1, THEN arg_cong[where f = length]] by simp
    then have lq: "length q = 5 - length us" and le: "length us \<le> 5" by auto
    from c1 have b: "us = drop (5 - length us) ''.html''"
      by (metis lq append_eq_conv_conj)
    from le consider "length us = 0" | "length us = 1" | "length us = 2" | "length us = 3"
      | "length us = 4" | "length us = 5" by linarith
    then show ?thesis
    proof cases
      case 1
      with c1 show ?thesis by auto
    next
      case 2
      with a b show ?thesis by simp
    next
      case 3
      with a b show ?thesis by (simp add: numeral_2_eq_2)
    next
      case 4
      with a b show ?thesis by (simp add: numeral_3_eq_3)
    next
      case 5
      with a b show ?thesis by (simp add: eval_nat_numeral)
    next
      case 6
      with a have "us = ''.html''" by simp
      with c1 show ?thesis by simp
    qed
  next
    assume "''.html'' @ us = q \<and> r = us @ ''.html''"
    then show ?thesis by blast
  qed
qed

lemma replace_html_suffix_aux:
  "old = ''.html'' \<Longrightarrow> new = ''.xhtml'' \<Longrightarrow> endswith s old
     \<Longrightarrow> endswith (replace_str old new s) new"
proof (induction old new s rule: replace_str.induct)
  case (1 old new)
  then show ?case by (simp add: endswith_def)
next
  case (2 old new c s)
  note old = \<open>old = ''.html''\<close> and new = \<open>new = ''.xhtml''\<close>
  have ne: "old \<noteq> []" using old by simp
  from "2.prems" obtain q where q: "c # s = q @ ''.html''" by (auto simp: endswith_iff)
  show ?case
  proof (cases "startswith (c # s) old")
    case True
    then obtain r where r: "c # s = ''.html'' @ r" unfolding old startswith_iff by blast
    have dr: "drop (length old) (c # s) = r"
      unfolding r old by simp
    have res: "replace_str old new (c # s) = new @ replace_str old new r"
      using True ne dr by simp
    from html_no_overlap[of r q] q r consider "r = []" | u where "r = u @ ''.html''"
      by auto
    then show ?thesis
    proof cases
      case 1
      show ?thesis unfolding res 1 using ne by (simp add: endswith_iff)
    next
      case 2
      then have "endswith r old"
        unfolding old endswith_iff by blast
      then have "endswith (drop (length old) (c # s)) old"
        by (simp only: dr)
      from "2.IH"(2)[OF ne True old new this]
      have "endswith (replace_str old new r) new"
        unfolding dr .
      then show ?thesis
        unfolding res endswith_iff by (metis append.assoc)
    qed
  next
    case False
    then have "q \<noteq> []" using q unfolding old startswith_iff by auto
    then obtain q' where "q = c # q'" "s = q' @ ''.html''"
      using q by (cases q) auto
    then have "endswith s old" unfolding old endswith_iff by blast
    from "2.IH"(3)[OF ne False old new this]
    have "endswith (replace_str old new s) new" .
    moreover have "replace_str old new (c # s) = c # replace_str old new s"
      using False ne by simp
    ultimately show ?thesis
      unfolding endswith_iff by (metis append_Cons)
  qed
qed

lemma replace_html_suffix:
  "endswith s ''.html'' \<Longrightarrow> endswith (replace_str ''.html'' ''.xhtml'' s) ''.xhtml''"
  by (rule replace_html_suffix_aux) simp_all
text \<open>
  What both converters do with an internal link, and what create_both_epubs.py does with
  an external one.
\<close>

lemma fix_internal_link_internal:
  assumes "endswith href ''.html''"
  shows "\<exists>h. fix_internal_link is_cover (Some href) = Some h \<and> endswith h ''.xhtml''"
proof -
  have ne: "href \<noteq> []" using assms by (auto simp: endswith_iff)
  have "endswith ''cover.xhtml'' ''.xhtml''" "endswith ''../cover.xhtml'' ''.xhtml''"
    by (simp_all add: endswith_def)
  then show ?thesis
    using assms ne replace_html_suffix[OF assms]
    by (simp add: fix_internal_link_def Let_def)
qed

lemma update_internal_link_internal:
  assumes "endswith href ''.html''" and "\<not> startswith href ''http''"
  shows "\<exists>h. update_internal_link (Some href) = Some h \<and> endswith h ''.xhtml''"
  using assms replace_html_suffix[OF assms(1)] by (simp add: update_internal_link_def)

lemma update_internal_link_external:
  "startswith href ''http'' \<Longrightarrow> update_internal_link (Some href) = Some href"
  by (simp add: update_internal_link_def)

text \<open>
  C4 fails in create_epub_complete.py: its loop has no test for external links, so an
  absolute link that ends in \<open>.html\<close> is rewritten like an internal one.
\<close>

theorem fix_internal_links_rewrites_external:
  "fix_internal_links False [Some ''chapter2.html'', Some ''https://example.com/page.html'']
     = [Some ''chapter2.xhtml'', Some ''https://example.com/page.xhtml'']
   \<and> update_internal_links [Some ''chapter2.html'', Some ''https://example.com/page.html'']
     = [Some ''chapter2.xhtml'', Some ''https://example.com/page.html'']"
  by (simp add: fix_internal_links_def fix_internal_link_def update_internal_links_def
        update_internal_link_def endswith_def)

section \<open>HTML to XHTML converter: the content root\<close>




subsection \<open>create_epub_complete.py\<close>








definition HTML_FILES_ORDER :: "string list" where
  "HTML_FILES_ORDER =
     [''index.html'', ''copyright.html'', ''dedication.html'', ''toc.html'',
      ''introduction.html'', ''part1.html'', ''chapter1.html'', ''chapter2.html'',
      ''part2.html'', ''chapter3.html'', ''part3.html'', ''chapter4.html'', ''chapter5.html'',
      ''part4.html'', ''chapter6.html'', ''chapter7.html'', ''chapter8.html'',
      ''conclusion.html'', ''other-books.html'', ''appendix.html'', ''bibliography.html'']"


subsection \<open>create_both_epubs.py\<close>


definition FILES_TO_PROCESS :: "string list" where
  "FILES_TO_PROCESS =
     [''copyright.html'', ''dedication.html'', ''toc.html'', ''introduction.html'',
      ''part1.html'', ''chapter1.html'', ''chapter2.html'', ''part2.html'', ''chapter3.html'',
      ''part3.html'', ''chapter4.html'', ''chapter5.html'', ''part4.html'', ''chapter6.html'',
      ''chapter7.html'', ''chapter8.html'', ''conclusion.html'', ''other-books.html'',
      ''appendix.html'', ''bibliography.html'', ''acknowledgments.html'']"


subsection \<open>Documents without a body\<close>








section \<open>Manifest and spine builder (create_content_opf)\<close>

subsection \<open>Unique ids\<close>

text \<open>
  The decimal rendering of a number determines the number; the loop below terminates
  because of it.
\<close>

lemma digit_char_inj: "a < 10 \<Longrightarrow> b < 10 \<Longrightarrow> digit_char a = digit_char b \<Longrightarrow> a = b"
proof -
  have d: "distinct ''0123456789''" by simp
  have l: "length ''0123456789'' = 10" by simp
  assume "a < 10" "b < 10" "digit_char a = digit_char b"
  then show ?thesis
    using nth_eq_iff_index_eq[OF d, of a b] unfolding digit_char_def l by blast
qed

lemma str_nat_nonempty: "str_nat n \<noteq> []"
  by (subst str_nat.simps) simp

lemma str_nat_last: "last (str_nat n) = digit_char (n mod 10)"
  by (subst str_nat.simps) simp

lemma str_nat_butlast: "butlast (str_nat n) = (if n < 10 then [] else str_nat (n div 10))"
  by (subst str_nat.simps) simp

lemma str_nat_inj: "str_nat n = str_nat m \<Longrightarrow> n = m"
proof (induction n arbitrary: m rule: str_nat.induct)
  case (1 n)
  from "1.prems" have l: "digit_char (n mod 10) = digit_char (m mod 10)"
    by (metis str_nat_last)
  then have md: "n mod 10 = m mod 10"
    by (intro digit_char_inj) simp_all
  from "1.prems" have b: "butlast (str_nat n) = butlast (str_nat m)" by simp
  show ?case
  proof (cases "n < 10")
    case True
    with b have "m < 10"
      using str_nat_nonempty[of "m div 10"] by (auto simp: str_nat_butlast split: if_splits)
    with True md show ?thesis by simp
  next
    case False
    with b have m: "\<not> m < 10" and "str_nat (n div 10) = str_nat (m div 10)"
      using str_nat_nonempty[of "n div 10"] by (auto simp: str_nat_butlast split: if_splits)
    with "1.IH"[OF False] have "n div 10 = m div 10" by simp
    with md show ?thesis by (metis div_mult_mod_eq)
  qed
qed

lemma candidates_finite:
  "finite {k. base_id @ ''_'' @ str_nat k \<in> set used_ids}"
proof -
  have "inj (\<lambda>k. base_id @ ''_'' @ str_nat k)"
    by (rule injI) (simp add: str_nat_inj)
  then have "finite ((\<lambda>k. base_id @ ''_'' @ str_nat k) -` set used_ids)"
    by (intro finite_vimageI) simp_all
  then show ?thesis by (simp add: vimage_def)
qed

text \<open>
  \<^verbatim>\<open>
  file_id = base_id
  counter = 1
  while file_id in used_ids:
      file_id = f"{base_id}_{counter}"
      counter += 1
  \<close>
  The set \<open>used_ids\<close> is kept as a list. The loop is \<open>unique_id_loop\<close> on the state
  \<open>(file_id, counter)\<close>; it stops because only finitely many candidates are in use.
\<close>

function unique_id_loop :: "string \<Rightarrow> string list \<Rightarrow> string \<Rightarrow> nat \<Rightarrow> string" where
  "unique_id_loop base_id used_ids file_id counter =
     (if file_id \<in> set used_ids
      then unique_id_loop base_id used_ids (base_id @ ''_'' @ str_nat counter) (counter + 1)
      else file_id)"
  by pat_completeness auto
termination
proof (relation "measure (\<lambda>(base_id, used_ids, file_id, counter).
          (if file_id \<in> set used_ids then 1 else 0)
          + 2 * card {k. counter \<le> k \<and> base_id @ ''_'' @ str_nat k \<in> set used_ids})")
  show "wf (measure (\<lambda>(base_id, used_ids, file_id, counter).
          (if file_id \<in> set used_ids then 1 else 0)
          + 2 * card {k. counter \<le> k \<and> base_id @ ''_'' @ str_nat k \<in> set used_ids}))"
    by simp
next
  fix base_id :: string and used_ids :: "string list" and file_id :: string and counter :: nat
  assume "file_id \<in> set used_ids"
  let ?P = "\<lambda>k. base_id @ ''_'' @ str_nat k \<in> set used_ids"
  have fin: "finite {k. counter \<le> k \<and> ?P k}"
    by (rule finite_subset[OF _ candidates_finite[of base_id used_ids]]) auto
  have split: "{k. counter + 1 \<le> k \<and> ?P k} = {k. counter \<le> k \<and> ?P k} - {counter}"
    by auto
  show "((base_id, used_ids, base_id @ ''_'' @ str_nat counter, counter + 1),
         (base_id, used_ids, file_id, counter))
        \<in> measure (\<lambda>(base_id, used_ids, file_id, counter).
          (if file_id \<in> set used_ids then 1 else 0)
          + 2 * card {k. counter \<le> k \<and> base_id @ ''_'' @ str_nat k \<in> set used_ids})"
  proof (cases "?P counter")
    case True
    then have "counter \<in> {k. counter \<le> k \<and> ?P k}" by simp
    then have "card {k. counter \<le> k \<and> ?P k} > 0"
      using fin by (metis card_gt_0_iff empty_iff)
    moreover have "card {k. counter + 1 \<le> k \<and> ?P k} = card {k. counter \<le> k \<and> ?P k} - 1"
      unfolding split using fin True by simp
    ultimately show ?thesis
      using \<open>file_id \<in> set used_ids\<close> True by simp
  next
    case False
    then have "{k. counter + 1 \<le> k \<and> ?P k} = {k. counter \<le> k \<and> ?P k}"
      by (auto simp: le_less Suc_le_eq)
    then show ?thesis
      using \<open>file_id \<in> set used_ids\<close> False by simp
  qed
qed

declare unique_id_loop.simps [simp del]

lemma unique_id_loop_fresh: "unique_id_loop base_id used_ids file_id counter \<notin> set used_ids"
  by (induction base_id used_ids file_id counter rule: unique_id_loop.induct)
     (subst unique_id_loop.simps, simp)

definition unique_id :: "string \<Rightarrow> string list \<Rightarrow> string" where
  "unique_id base_id used_ids = unique_id_loop base_id used_ids base_id 1"

lemma unique_id_fresh: "unique_id base_id used_ids \<notin> set used_ids"
  by (simp add: unique_id_def unique_id_loop_fresh)

subsection \<open>The build tree and the package document\<close>

text \<open>
  What \<open>create_content_opf\<close> reads from the build directory: whether \<open>OEBPS/cover.xhtml\<close>
  exists, and the names of the entries of \<open>OEBPS/Text\<close> and of the image directory (empty
  when the directory does not exist). A manifest item is kept with its attributes; the
  spine is the list of its \<open>idref\<close>s.
\<close>

record opf_tree =
  cover_xhtml :: bool
  text_names :: "string list"
  image_names :: "string list"

record manifest_item =
  item_id :: string
  href :: string
  media_type :: string
  properties :: "string option"

text \<open>\<open>re.sub(r'[^a-zA-Z0-9_]', '_', s)\<close>\<close>

definition is_id_char :: "char \<Rightarrow> bool" where
  "is_id_char c =
     (c \<in> set ''abcdefghijklmnopqrstuvwxyzABCDEFGHIJKLMNOPQRSTUVWXYZ0123456789_'')"

definition safe_id :: "string \<Rightarrow> string" where
  "safe_id s = map (\<lambda>c. if is_id_char c then c else CHR ''_'') s"

text \<open>\<open>sorted(dir.glob('*.xhtml'))\<close>: the names that end in \<open>.xhtml\<close>, in string order.\<close>

definition xhtml_files :: "opf_tree \<Rightarrow> string list" where
  "xhtml_files tree = sort (filter (\<lambda>name. endswith name ''.xhtml'') (text_names tree))"

subsection \<open>create_epub_complete.py\<close>

definition SPINE_ORDER :: "string list" where
  "SPINE_ORDER =
     [''cover'', ''copyright'', ''dedication'', ''toc'', ''introduction'', ''part1'',
      ''chapter1'', ''chapter2'', ''part2'', ''chapter3'', ''part3'', ''chapter4'',
      ''chapter5'', ''part4'', ''chapter6'', ''chapter7'', ''chapter8'', ''conclusion'',
      ''other-books'', ''appendix'', ''bibliography'']"

definition xhtml_items_complete :: "opf_tree \<Rightarrow> manifest_item list" where
  "xhtml_items_complete tree =
     map (\<lambda>name. \<lparr>item_id = safe_id (name_stem name), href = ''Text/'' @ name,
                  media_type = ''application/xhtml+xml'', properties = None\<rparr>)
         (xhtml_files tree)"

text \<open>The media type of an image by its lower-cased suffix; \<open>None\<close> is the \<open>continue\<close>.\<close>

definition image_media_type :: "string \<Rightarrow> string option" where
  "image_media_type ext =
     (if ext \<in> set [''.jpg'', ''.jpeg''] then Some ''image/jpeg''
      else if ext = ''.png'' then Some ''image/png''
      else if ext = ''.gif'' then Some ''image/gif''
      else if ext = ''.svg'' then Some ''image/svg+xml''
      else None)"

text \<open>
  The loop over the images. Every image that has a media type takes an id from the
  allocator, and the id is added to \<open>used_ids\<close>; the image whose name is the cover's is
  listed under the fixed id \<open>cover_image\<close> instead.
\<close>

fun image_items_complete :: "string \<Rightarrow> string list \<Rightarrow> string list \<Rightarrow> manifest_item list" where
  "image_items_complete cover_filename [] used_ids = []"
| "image_items_complete cover_filename (name # names) used_ids =
     (case image_media_type (lower (name_suffix name)) of
        None \<Rightarrow> image_items_complete cover_filename names used_ids
      | Some mt \<Rightarrow>
          (let base_id = safe_id (name_stem name);
               file_id = unique_id base_id used_ids
           in (if name = cover_filename
               then \<lparr>item_id = ''cover_image'', href = ''images/'' @ name, media_type = mt,
                     properties = Some ''cover-image''\<rparr>
               else \<lparr>item_id = file_id, href = ''images/'' @ name, media_type = mt,
                     properties = None\<rparr>)
              # image_items_complete cover_filename names (file_id # used_ids)))"

text \<open>\<open>metadata.get(key, default)\<close>\<close>

definition dict_get :: "metadata \<Rightarrow> string \<Rightarrow> string \<Rightarrow> string" where
  "dict_get metadata key fallback =
     (case map_of metadata key of Some v \<Rightarrow> v | None \<Rightarrow> fallback)"

text \<open>
  The manifest of the package document: the three items of the template (\<open>ncx\<close>, \<open>nav\<close>,
  \<open>css\<close>), then \<open>manifest_items\<close>: the cover page if it exists, the XHTML files, the images.
\<close>

definition manifest_complete :: "metadata \<Rightarrow> opf_tree \<Rightarrow> manifest_item list" where
  "manifest_complete metadata tree =
     [\<lparr>item_id = ''ncx'', href = ''toc.ncx'', media_type = ''application/x-dtbncx+xml'',
       properties = None\<rparr>,
      \<lparr>item_id = ''nav'', href = ''nav.xhtml'', media_type = ''application/xhtml+xml'',
       properties = Some ''nav''\<rparr>,
      \<lparr>item_id = ''css'', href = ''Styles/style.css'', media_type = ''text/css'',
       properties = None\<rparr>]
     @ (if cover_xhtml tree
        then [\<lparr>item_id = ''cover'', href = ''cover.xhtml'',
                media_type = ''application/xhtml+xml'', properties = None\<rparr>]
        else [])
     @ xhtml_items_complete tree
     @ image_items_complete
         (sanitize_filename (basename (dict_get metadata ''cover_image'' ''cover.jpg'')))
         (sort (image_names tree))
         [''cover'', ''cover_image'', ''ncx'', ''nav'', ''css'']"

text \<open>
  \<^verbatim>\<open>
  for item_id in SPINE_ORDER:
      safe_id = re.sub(r'[^a-zA-Z0-9_]', '_', item_id)
      if item_id == 'cover' and os.path.exists('epub_build/OEBPS/cover.xhtml'):
          spine_items.append(f'        <itemref idref="cover"/>')
      elif os.path.exists(f'epub_build/OEBPS/Text/{item_id}.xhtml'):
          spine_items.append(f'        <itemref idref="{safe_id}"/>')
  \<close>
\<close>

definition spine_over :: "string list \<Rightarrow> opf_tree \<Rightarrow> string list" where
  "spine_over order tree =
     concat (map (\<lambda>item_id.
                    if item_id = ''cover'' \<and> cover_xhtml tree then [''cover'']
                    else if item_id @ ''.xhtml'' \<in> set (text_names tree) then [safe_id item_id]
                    else [])
                 order)"

definition spine_complete :: "opf_tree \<Rightarrow> string list" where
  "spine_complete tree = spine_over SPINE_ORDER tree"

subsection \<open>create_both_epubs.py\<close>

definition CORRECT_SPINE_ORDER :: "string list" where
  "CORRECT_SPINE_ORDER =
     [''cover'', ''copyright'', ''dedication'', ''toc'', ''introduction'', ''part1'',
      ''chapter1'', ''chapter2'', ''part2'', ''chapter3'', ''part3'', ''chapter4'',
      ''chapter5'', ''part4'', ''chapter6'', ''chapter7'', ''chapter8'', ''conclusion'',
      ''other-books'', ''appendix'', ''bibliography'', ''acknowledgments'']"

definition xhtml_items_both :: "opf_tree \<Rightarrow> manifest_item list" where
  "xhtml_items_both tree =
     map (\<lambda>name. \<lparr>item_id = name_stem name, href = ''Text/'' @ name,
                  media_type = ''application/xhtml+xml'', properties = None\<rparr>)
         (xhtml_files tree)"

text \<open>
  The loop over the images, in the order of the directory listing. The cover's file is
  skipped; the id is the stem with hyphens and spaces turned into underscores, made
  unique against \<open>used_ids\<close>.
\<close>

fun image_items_both :: "string \<Rightarrow> string list \<Rightarrow> string list \<Rightarrow> manifest_item list" where
  "image_items_both cover_filename [] used_ids = []"
| "image_items_both cover_filename (name # names) used_ids =
     (if name = cover_filename then image_items_both cover_filename names used_ids
      else
        (let base_id = replace_str '' '' ''_'' (replace_str ''-'' ''_'' (name_stem name));
             file_id = unique_id base_id used_ids;
             ext = lower (name_suffix name);
             mt = (if ext \<in> set [''.jpg'', ''.jpeg''] then ''image/jpeg''
                   else if ext = ''.png'' then ''image/png''
                   else ''image/png'')
         in \<lparr>item_id = file_id, href = ''Images/'' @ name, media_type = mt, properties = None\<rparr>
            # image_items_both cover_filename names (file_id # used_ids)))"

text \<open>
  The manifest: the \<open>cover-image\<close> item of the template, then \<open>manifest_items\<close>: the cover
  page if it exists, the XHTML files, the images, the stylesheet and the NCX.
\<close>

definition manifest_both :: "metadata \<Rightarrow> opf_tree \<Rightarrow> manifest_item list" where
  "manifest_both metadata tree =
     (let cover_filename = basename (dict_get metadata ''cover_image'' '''') in
      [\<lparr>item_id = ''cover-image'', href = ''Images/'' @ cover_filename,
        media_type = ''image/jpeg'', properties = None\<rparr>]
      @ (if cover_xhtml tree
         then [\<lparr>item_id = ''cover'', href = ''cover.xhtml'',
                 media_type = ''application/xhtml+xml'', properties = None\<rparr>]
         else [])
      @ xhtml_items_both tree
      @ image_items_both cover_filename (image_names tree) [''cover-image'', ''cover'']
      @ [\<lparr>item_id = ''css'', href = ''Styles/style.css'', media_type = ''text/css'',
          properties = None\<rparr>,
         \<lparr>item_id = ''ncx'', href = ''toc.ncx'', media_type = ''application/x-dtbncx+xml'',
          properties = None\<rparr>])"

text \<open>
  \<^verbatim>\<open>
  for item_id in CORRECT_SPINE_ORDER:
      spine_items.append(f'    <itemref idref="{item_id}"/>')
  \<close>
\<close>

definition spine_both :: "opf_tree \<Rightarrow> string list" where
  "spine_both tree = map (\<lambda>item_id. item_id) CORRECT_SPINE_ORDER"

subsection \<open>Example build trees\<close>

text \<open>
  A build in which only three of the listed chapters were converted, and a build in which
  a chapter and an image share their stem.
\<close>

definition partial_tree :: opf_tree where
  "partial_tree =
     \<lparr>cover_xhtml = True,
      text_names = [''copyright.xhtml'', ''toc.xhtml'', ''chapter1.xhtml''],
      image_names = [''cover.jpg'']\<rparr>"

definition clash_tree :: opf_tree where
  "clash_tree =
     \<lparr>cover_xhtml = False,
      text_names = [''toc.xhtml''],
      image_names = [''toc.png'']\<rparr>"

definition cover_metadata :: metadata where
  "cover_metadata = [(''title'', ''T''), (''cover_image'', ''cover.jpg'')]"

text \<open>The document that a spine id stands for exists in the build tree.\<close>

definition document_exists :: "opf_tree \<Rightarrow> string \<Rightarrow> bool" where
  "document_exists tree spine_id =
     (spine_id = ''cover'' \<and> cover_xhtml tree \<or> spine_id @ ''.xhtml'' \<in> set (text_names tree))"

subsection \<open>The spine\<close>

text \<open>
  In create_epub_complete.py the spine is the declared order restricted to the ids whose
  document exists, no id twice, and each of its references is the id of a manifest item.
\<close>

lemma rfind_append:
  "rfind c (xs @ ys) =
     (case rfind c ys of Some i \<Rightarrow> Some (length xs + i) | None \<Rightarrow> rfind c xs)"
  by (induction xs) (auto split: option.splits)

lemma name_stem_xhtml: "s \<noteq> [] \<Longrightarrow> name_stem (s @ ''.xhtml'') = s"
  by (simp add: name_stem_def rfind_append)

lemma endswith_append: "endswith (s @ p) p"
  by (auto simp: endswith_iff)

lemma xhtml_files_mem:
  "name \<in> set (xhtml_files tree) \<longleftrightarrow> name \<in> set (text_names tree) \<and> endswith name ''.xhtml''"
  by (auto simp: xhtml_files_def)

lemma spine_over_referential:
  assumes "[] \<notin> set order"
  shows "set (spine_over order tree) \<subseteq> set (map item_id (manifest_complete metadata tree))"
proof
  fix r assume "r \<in> set (spine_over order tree)"
  then obtain i where i: "i \<in> set order"
    and r: "r \<in> set (if i = ''cover'' \<and> cover_xhtml tree then [''cover'']
                 else if i @ ''.xhtml'' \<in> set (text_names tree) then [safe_id i] else [])"
    by (auto simp: spine_over_def)
  have ne: "i \<noteq> []" using i assms by auto
  show "r \<in> set (map item_id (manifest_complete metadata tree))"
  proof (cases "i = ''cover'' \<and> cover_xhtml tree")
    case True
    with r have "r = ''cover''" by simp
    with True show ?thesis by (simp add: manifest_complete_def)
  next
    case False
    with r have mem: "i @ ''.xhtml'' \<in> set (text_names tree)" and rr: "r = safe_id i"
      by (auto split: if_splits)
    from mem have "i @ ''.xhtml'' \<in> set (xhtml_files tree)"
      by (simp add: xhtml_files_mem endswith_append)
    then have "safe_id (name_stem (i @ ''.xhtml'')) \<in> item_id ` set (xhtml_items_complete tree)"
      by (force simp: xhtml_items_complete_def)
    then have "r \<in> item_id ` set (xhtml_items_complete tree)"
      using ne rr by (simp add: name_stem_xhtml)
    then show ?thesis by (auto simp: manifest_complete_def)
  qed
qed

lemma SPINE_ORDER_nonempty: "[] \<notin> set SPINE_ORDER"
  by (simp add: SPINE_ORDER_def)

lemma spine_complete_referential:
  "set (spine_complete tree) \<subseteq> set (map item_id (manifest_complete metadata tree))"
  unfolding spine_complete_def by (rule spine_over_referential[OF SPINE_ORDER_nonempty])

lemma spine_over_filter:
  "spine_over order tree = map safe_id (filter (document_exists tree) order)"
proof -
  have c: "safe_id ''cover'' = ''cover''" by (simp add: safe_id_def is_id_char_def)
  show ?thesis
    unfolding spine_over_def
    by (induction order) (auto simp: document_exists_def c)
qed

lemma spine_complete_distinct: "distinct (spine_complete tree)"
proof -
  have "distinct (map safe_id SPINE_ORDER)"
    by (simp add: SPINE_ORDER_def safe_id_def is_id_char_def)
  then show ?thesis
    unfolding spine_complete_def spine_over_filter by (rule distinct_map_filter)
qed

lemma spine_complete_exact:
  "spine_complete tree = map safe_id (filter (document_exists tree) SPINE_ORDER)"
  unfolding spine_complete_def by (rule spine_over_filter)

text \<open>
  C1 fails in create_both_epubs.py: its loop emits every id of the declared order without
  looking at the build tree, so a document that was not converted is still referenced,
  and the reference has no manifest item. On the same tree create_epub_complete.py leaves
  the missing documents out.
\<close>

theorem spine_both_dangling_idref:
  "spine_both partial_tree = CORRECT_SPINE_ORDER
   \<and> map item_id (manifest_both cover_metadata partial_tree)
       = [''cover-image'', ''cover'', ''chapter1'', ''copyright'', ''toc'', ''css'', ''ncx'']
   \<and> ''dedication'' \<in> set (spine_both partial_tree)
   \<and> ''dedication'' \<notin> set (map item_id (manifest_both cover_metadata partial_tree))
   \<and> spine_complete partial_tree = [''cover'', ''copyright'', ''toc'', ''chapter1'']"
  by code_simp

subsection \<open>The manifest ids\<close>

text \<open>
  In create_epub_complete.py every id is made of letters, digits and underscores, and the
  ids given to the images are pairwise distinct and none of them is \<open>cover\<close>, \<open>ncx\<close>,
  \<open>nav\<close> or \<open>css\<close>. The ids of the XHTML files are not entered into \<open>used_ids\<close>.
\<close>

lemma digit_char_safe: "d < 10 \<Longrightarrow> is_id_char (digit_char d)"
proof -
  assume "d < 10"
  then have "digit_char d \<in> set ''0123456789''"
    unfolding digit_char_def by (intro nth_mem) simp
  moreover have "list_all is_id_char ''0123456789''"
    by (simp add: is_id_char_def)
  ultimately show ?thesis
    unfolding list_all_iff by blast
qed

lemma str_nat_safe: "list_all is_id_char (str_nat n)"
proof (induction n rule: str_nat.induct)
  case (1 n)
  show ?case
  proof (cases "n < 10")
    case True
    then show ?thesis by (subst str_nat.simps) (simp add: digit_char_safe)
  next
    case False
    with 1 show ?thesis by (subst str_nat.simps) (simp add: digit_char_safe)
  qed
qed

lemma safe_id_safe: "list_all is_id_char (safe_id s)"
  by (induction s) (auto simp: safe_id_def is_id_char_def)

lemma unique_id_loop_safe:
  "list_all is_id_char base_id \<Longrightarrow> list_all is_id_char file_id
     \<Longrightarrow> list_all is_id_char (unique_id_loop base_id used_ids file_id counter)"
proof (induction base_id used_ids file_id counter rule: unique_id_loop.induct)
  case (1 base_id used_ids file_id counter)
  have u: "is_id_char CHR ''_''" by (simp add: is_id_char_def)
  show ?case
    using 1 u by (subst unique_id_loop.simps) (simp add: str_nat_safe)
qed

lemma unique_id_safe: "list_all is_id_char base_id \<Longrightarrow> list_all is_id_char (unique_id base_id used_ids)"
  by (simp add: unique_id_def unique_id_loop_safe)

lemma image_items_complete_safe:
  "list_all (\<lambda>it. list_all is_id_char (item_id it)) (image_items_complete cf names used_ids)"
proof (induction names arbitrary: used_ids)
  case Nil
  then show ?case by simp
next
  case (Cons name names)
  have c: "list_all is_id_char ''cover_image''" by (simp add: is_id_char_def)
  show ?case
    using Cons c by (simp add: Let_def unique_id_safe safe_id_safe split: option.splits)
qed

lemma manifest_complete_ids_safe:
  "list_all (\<lambda>it. list_all is_id_char (item_id it)) (manifest_complete metadata tree)"
proof -
  have "list_all is_id_char ''ncx''" "list_all is_id_char ''nav''" "list_all is_id_char ''css''"
    "list_all is_id_char ''cover''"
    by (simp_all add: is_id_char_def)
  moreover have "list_all (\<lambda>it. list_all is_id_char (item_id it)) (xhtml_items_complete tree)"
    using safe_id_safe by (auto simp: xhtml_items_complete_def list_all_iff)
  ultimately show ?thesis
    by (simp add: manifest_complete_def image_items_complete_safe)
qed

lemma image_items_complete_ids:
  "distinct names \<Longrightarrow> ''cover_image'' \<in> set used_ids \<Longrightarrow>
   distinct (map item_id (image_items_complete cf names used_ids))
   \<and> (\<forall>x \<in> set (map item_id (image_items_complete cf names used_ids)).
        x = ''cover_image'' \<and> cf \<in> set names \<or> x \<notin> set used_ids)"
proof (induction names arbitrary: used_ids)
  case Nil
  then show ?case by simp
next
  case (Cons name names)
  show ?case
  proof (cases "image_media_type (lower (name_suffix name))")
    case None
    with Cons show ?thesis by auto
  next
    case (Some mt)
    let ?fid = "unique_id (safe_id (name_stem name)) used_ids"
    let ?rest = "image_items_complete cf names (?fid # used_ids)"
    have fresh: "?fid \<notin> set used_ids" by (rule unique_id_fresh)
    then have fc: "?fid \<noteq> ''cover_image''" using Cons.prems(2) by auto
    from Cons.prems have d: "distinct names" and nn: "name \<notin> set names" by auto
    from Cons.IH[OF d, of "?fid # used_ids"] Cons.prems(2)
    have ih: "distinct (map item_id ?rest)"
      "\<forall>x \<in> set (map item_id ?rest). x = ''cover_image'' \<and> cf \<in> set names \<or> x \<notin> set (?fid # used_ids)"
      by auto
    show ?thesis
    proof (cases "name = cf")
      case True
      then have "cf \<notin> set names" using nn by simp
      with ih(2) have "''cover_image'' \<notin> set (map item_id ?rest)"
        using Cons.prems(2) by auto
      with ih True Some show ?thesis by (auto simp: Let_def)
    next
      case False
      from ih(2) have "?fid \<notin> set (map item_id ?rest)"
        using fc by auto
      with ih False Some fresh show ?thesis by (auto simp: Let_def)
    qed
  qed
qed

lemma image_ids_complete_distinct:
  assumes "distinct (image_names tree)"
  shows "distinct (map item_id (image_items_complete cf (sort (image_names tree))
                     [''cover'', ''cover_image'', ''ncx'', ''nav'', ''css'']))
       \<and> set (map item_id (image_items_complete cf (sort (image_names tree))
                     [''cover'', ''cover_image'', ''ncx'', ''nav'', ''css'']))
           \<inter> {''cover'', ''ncx'', ''nav'', ''css''} = {}"
proof -
  have d: "distinct (sort (image_names tree))" using assms by simp
  have m: "''cover_image'' \<in> set [''cover'', ''cover_image'', ''ncx'', ''nav'', ''css'']" by simp
  from image_items_complete_ids[OF d m, of cf] show ?thesis by auto
qed

text \<open>
  C3 fails: the ids of the XHTML files are neither checked against \<open>used_ids\<close> nor added
  to it, so an image whose stem is that of a chapter gets the chapter's id. Both scripts
  list the id \<open>toc\<close> twice for a build with \<open>Text/toc.xhtml\<close> and the image \<open>toc.png\<close>.
\<close>

theorem manifest_duplicate_id:
  "map item_id (manifest_complete cover_metadata clash_tree)
     = [''ncx'', ''nav'', ''css'', ''toc'', ''toc'']
   \<and> \<not> distinct (map item_id (manifest_complete cover_metadata clash_tree))
   \<and> map item_id (manifest_both cover_metadata clash_tree)
     = [''cover-image'', ''toc'', ''toc'', ''css'', ''ncx'']
   \<and> \<not> distinct (map item_id (manifest_both cover_metadata clash_tree))"
  by code_simp

section \<open>Entity escaping (create_both_epubs.py, convert_html_to_xhtml)\<close>

text \<open>
  The character classes of the pattern
  \<^verbatim>\<open>&(?:[a-zA-Z][a-zA-Z0-9]*|#\d+|#x[0-9a-fA-F]+);\<close>
  (below 256 the decimal digits that \<open>\d\<close> matches are the ten ASCII digits).
\<close>

definition is_alpha :: "char \<Rightarrow> bool" where
  "is_alpha c = (c \<in> set ''abcdefghijklmnopqrstuvwxyzABCDEFGHIJKLMNOPQRSTUVWXYZ'')"

definition is_digit :: "char \<Rightarrow> bool" where
  "is_digit c = (c \<in> set ''0123456789'')"

definition is_alnum :: "char \<Rightarrow> bool" where
  "is_alnum c = (is_alpha c \<or> is_digit c)"

definition is_hex :: "char \<Rightarrow> bool" where
  "is_hex c = (c \<in> set ''0123456789abcdefABCDEF'')"

text \<open>
  The longest run of characters of a class, which a semicolon must follow: the greedy
  repetition of the pattern and the \<open>;\<close> after it. The result is the run and the text after
  the semicolon.
\<close>

definition run_semicolon :: "(char \<Rightarrow> bool) \<Rightarrow> string \<Rightarrow> (string \<times> string) option" where
  "run_semicolon cls s =
     (case dropWhile cls s of
        [] \<Rightarrow> None
      | c # rest \<Rightarrow> if c = CHR '';'' then Some (takeWhile cls s, rest) else None)"

text \<open>
  A match of the pattern at the start of the text: the reference matched and the text
  after it. The three alternatives exclude each other by their first characters.
\<close>

definition match_entity :: "string \<Rightarrow> (string \<times> string) option" where
  "match_entity s =
     (case s of
        [] \<Rightarrow> None
      | c # t \<Rightarrow>
          if c \<noteq> CHR ''&'' then None
          else (case t of
                  [] \<Rightarrow> None
                | d # u \<Rightarrow>
                    if is_alpha d then
                      (case run_semicolon is_alnum u of
                         None \<Rightarrow> None
                       | Some (name, rest) \<Rightarrow> Some (CHR ''&'' # d # name @ '';'', rest))
                    else if d = CHR ''#'' then
                      (case u of
                         [] \<Rightarrow> None
                       | e # v \<Rightarrow>
                           if is_digit e then
                             (case run_semicolon is_digit u of
                                None \<Rightarrow> None
                              | Some (digits, rest) \<Rightarrow> Some (''&#'' @ digits @ '';'', rest))
                           else if e = CHR ''x'' then
                             (case run_semicolon is_hex v of
                                None \<Rightarrow> None
                              | Some (hex, rest) \<Rightarrow>
                                  if hex = [] then None else Some (''&#x'' @ hex @ '';'', rest))
                           else None)
                    else None))"

lemma run_semicolon_shorter:
  "run_semicolon cls s = Some (r, rest) \<Longrightarrow> length rest < length s"
proof -
  assume a: "run_semicolon cls s = Some (r, rest)"
  then obtain c where "dropWhile cls s = c # rest"
    by (auto simp: run_semicolon_def split: list.splits if_splits)
  then have "length (c # rest) \<le> length s"
    by (metis length_dropWhile_le)
  then show ?thesis by simp
qed

lemma match_entity_shorter:
  "match_entity s = Some (entity, rest) \<Longrightarrow> length rest < length s"
  by (auto simp: match_entity_def split: list.splits if_splits option.splits
        dest!: run_semicolon_shorter)

text \<open>\<open>f'___ENTITY_{entity_counter}___'\<close>\<close>

definition placeholder :: "nat \<Rightarrow> string" where
  "placeholder n = ''___ENTITY_'' @ str_nat n @ ''___''"

text \<open>
  \<open>re.sub(pattern, replace_entity, text)\<close>: the text is scanned from the left; a match
  is replaced by the next placeholder and entered into \<open>entity_map\<close>, and the scan goes on
  after the match. The result is the new text and \<open>entity_map\<close> in insertion order; the
  first argument is \<open>entity_counter\<close>.
\<close>

function protect_entities :: "nat \<Rightarrow> string \<Rightarrow> string \<times> (string \<times> string) list" where
  "protect_entities n [] = ([], [])"
| "protect_entities n (c # s) =
     (case match_entity (c # s) of
        Some (entity, rest) \<Rightarrow>
          (case protect_entities (Suc n) rest of
             (text, entity_map) \<Rightarrow> (placeholder n @ text, (placeholder n, entity) # entity_map))
      | None \<Rightarrow>
          (case protect_entities n s of
             (text, entity_map) \<Rightarrow> (c # text, entity_map)))"
  by pat_completeness auto
termination
  by (relation "measure (\<lambda>(n, s). length s)") (auto dest: match_entity_shorter)

text \<open>
  \<^verbatim>\<open>
  text = re.sub(..., replace_entity, text)
  text = text.replace('&', '&amp;')
  for placeholder, entity in entity_map.items():
      text = text.replace(placeholder, entity)
  \<close>
\<close>

definition escape_ampersands :: "string \<Rightarrow> string" where
  "escape_ampersands text =
     (case protect_entities 0 text of
        (protected, entity_map) \<Rightarrow>
          fold (\<lambda>(placeholder, entity) t. replace_str placeholder entity t)
               entity_map
               (replace_str ''&'' ''&amp;'' protected))"

text \<open>
  The escaping step of the converter: the non-breaking space is made numeric, then the
  ampersands are escaped.
\<close>

definition escape_step :: "string \<Rightarrow> string" where
  "escape_step xhtml_content = escape_ampersands (replace_str ''&nbsp;'' ''&#160;'' xhtml_content)"

text \<open>Every ampersand of a text begins a reference that the pattern matches.\<close>

fun ampersands_valid :: "string \<Rightarrow> bool" where
  "ampersands_valid [] = True"
| "ampersands_valid (c # s) =
     ((if c = CHR ''&'' then match_entity (c # s) \<noteq> None else True) \<and> ampersands_valid s)"

text \<open>
  The escaping as the specification words it, for comparison with the code (this
  definition is not taken from the source): the text is read from the left; a reference
  that the pattern matches is kept, the named non-breaking space becoming \<open>&#160;\<close>; any
  other ampersand becomes \<open>&amp;\<close>; every other character is kept.
\<close>

function escape_as_specified :: "string \<Rightarrow> string" where
  "escape_as_specified [] = []"
| "escape_as_specified (c # s) =
     (case match_entity (c # s) of
        Some (entity, rest) \<Rightarrow>
          (if entity = ''&nbsp;'' then ''&#160;'' else entity) @ escape_as_specified rest
      | None \<Rightarrow> (if c = CHR ''&'' then ''&amp;'' else [c]) @ escape_as_specified s)"
  by pat_completeness auto
termination
  by (relation "measure length") (auto dest: match_entity_shorter)


text \<open>
  A text is a reference of the pattern when the pattern matches exactly it at the start
  of any text that begins with it.
\<close>

definition is_entity :: "string \<Rightarrow> bool" where
  "is_entity e = (\<forall>rest. match_entity (e @ rest) = Some (e, rest))"

lemma run_semicolon_SomeD:
  assumes "run_semicolon cls u = Some (r, rest)"
  shows "u = r @ CHR '';'' # rest" and "\<forall>c\<in>set r. cls c"
proof -
  from assms have d: "dropWhile cls u = CHR '';'' # rest" and r: "r = takeWhile cls u"
    by (auto simp: run_semicolon_def split: list.splits if_splits)
  show "u = r @ CHR '';'' # rest"
    using takeWhile_dropWhile_id[of cls u] d r by simp
  show "\<forall>c\<in>set r. cls c"
    unfolding r by (auto dest: set_takeWhileD)
qed

lemma run_semicolon_SomeI:
  assumes "\<forall>c\<in>set r. cls c" and "\<not> cls CHR '';''"
  shows "run_semicolon cls (r @ CHR '';'' # rest) = Some (r, rest)"
proof -
  have "takeWhile cls (r @ CHR '';'' # rest) = r"
    using assms by (simp add: takeWhile_append2)
  moreover have "dropWhile cls (r @ CHR '';'' # rest) = CHR '';'' # rest"
    using assms by (simp add: dropWhile_append2)
  ultimately show ?thesis by (simp add: run_semicolon_def)
qed

lemma class_facts:
  "\<not> is_alnum CHR '';''" "\<not> is_digit CHR '';''" "\<not> is_hex CHR '';''"
  "\<not> is_alnum CHR ''_''" "\<not> is_digit CHR ''_''" "\<not> is_hex CHR ''_''" "\<not> is_alpha CHR ''_''"
  "\<not> is_alnum CHR ''&''" "\<not> is_digit CHR ''&''" "\<not> is_hex CHR ''&''" "\<not> is_alpha CHR ''&''"
  by (simp_all add: is_alnum_def is_digit_def is_hex_def is_alpha_def)

lemma match_entity_cases:
  assumes "match_entity s = Some (e, rest)"
  obtains
    (name) d name where "is_alpha d" "\<forall>c\<in>set name. is_alnum c"
      "e = CHR ''&'' # d # name @ '';''" "s = e @ rest"
  | (decimal) d ds where "is_digit d" "\<forall>c\<in>set ds. is_digit c"
      "e = CHR ''&'' # CHR ''#'' # d # ds @ '';''" "s = e @ rest"
  | (hex) h hs where "is_hex h" "\<forall>c\<in>set hs. is_hex c"
      "e = CHR ''&'' # CHR ''#'' # CHR ''x'' # h # hs @ '';''" "s = e @ rest"
proof -
  from assms obtain d u where s: "s = CHR ''&'' # d # u"
    by (auto simp: match_entity_def split: list.splits if_splits)
  show thesis
  proof (cases "is_alpha d")
    case True
    with assms s obtain name where r: "run_semicolon is_alnum u = Some (name, rest)"
      and e: "e = CHR ''&'' # d # name @ '';''"
      by (auto simp: match_entity_def split: option.splits)
    from run_semicolon_SomeD[OF r] e s True show thesis
      by (intro name[of d name]) auto
  next
    case False
    with assms s obtain x v where d: "d = CHR ''#''" and u: "u = x # v"
      by (auto simp: match_entity_def split: list.splits if_splits)
    show thesis
    proof (cases "is_digit x")
      case True
      with assms s False d u obtain digits where r: "run_semicolon is_digit u = Some (digits, rest)"
        and e: "e = ''&#'' @ digits @ '';''"
        by (auto simp: match_entity_def split: option.splits)
      from run_semicolon_SomeD[OF r] have u': "u = digits @ CHR '';'' # rest"
        and all: "\<forall>c\<in>set digits. is_digit c" by auto
      from u u' True obtain ds where ds: "digits = x # ds"
        by (cases digits) (auto simp: is_digit_def)
      from ds all e s d u' True show thesis
        by (intro decimal[of x ds]) auto
    next
      case nd: False
      with assms s False d u obtain hx where x: "x = CHR ''x''"
        and r: "run_semicolon is_hex v = Some (hx, rest)"
        and e: "e = ''&#x'' @ hx @ '';''" and ne: "hx \<noteq> []"
        by (auto simp: match_entity_def split: option.splits if_splits)
      from run_semicolon_SomeD[OF r] have v': "v = hx @ CHR '';'' # rest"
        and all: "\<forall>c\<in>set hx. is_hex c" by auto
      from ne obtain h hs where hx: "hx = h # hs" by (cases hx) auto
      from hx all e s d u x v' show thesis
        by (intro hex[of h hs]) auto
    qed
  qed
qed

lemma entity_nameI:
  assumes "is_alpha d" "\<forall>c\<in>set name. is_alnum c"
  shows "is_entity (CHR ''&'' # d # name @ '';'')"
  using assms run_semicolon_SomeI[of name is_alnum]
  by (simp add: is_entity_def match_entity_def class_facts)

lemma entity_decimalI:
  assumes "is_digit d" "\<forall>c\<in>set ds. is_digit c"
  shows "is_entity (CHR ''&'' # CHR ''#'' # d # ds @ '';'')"
proof -
  have na: "\<not> is_alpha CHR ''#''" by (simp add: is_alpha_def)
  have "run_semicolon is_digit ((d # ds) @ CHR '';'' # rest) = Some (d # ds, rest)" for rest
    using assms by (intro run_semicolon_SomeI) (auto simp: class_facts)
  then show ?thesis
    using assms na by (simp add: is_entity_def match_entity_def)
qed

lemma entity_hexI:
  assumes "is_hex h" "\<forall>c\<in>set hs. is_hex c"
  shows "is_entity (CHR ''&'' # CHR ''#'' # CHR ''x'' # h # hs @ '';'')"
proof -
  have na: "\<not> is_alpha CHR ''#''" "\<not> is_digit CHR ''x''"
    by (simp_all add: is_alpha_def is_digit_def)
  have "run_semicolon is_hex ((h # hs) @ CHR '';'' # rest) = Some (h # hs, rest)" for rest
    using assms by (intro run_semicolon_SomeI) (auto simp: class_facts)
  then show ?thesis
    using assms na by (simp add: is_entity_def match_entity_def)
qed

lemma match_entity_SomeD:
  assumes "match_entity s = Some (e, rest)"
  shows "s = e @ rest" and "is_entity e" and "CHR ''_'' \<notin> set e"
    and "\<exists>b. e = CHR ''&'' # b \<and> CHR ''&'' \<notin> set b"
proof -
  have "s = e @ rest \<and> is_entity e \<and> CHR ''_'' \<notin> set e
        \<and> (\<exists>b. e = CHR ''&'' # b \<and> CHR ''&'' \<notin> set b)"
    using assms
  proof (cases rule: match_entity_cases)
    case (name d name)
    then show ?thesis
      using entity_nameI[of d name] class_facts by auto
  next
    case (decimal d ds)
    then show ?thesis
      using entity_decimalI[of d ds] class_facts by auto
  next
    case (hex h hs)
    then show ?thesis
      using entity_hexI[of h hs] class_facts by auto
  qed
  then show "s = e @ rest" and "is_entity e" and "CHR ''_'' \<notin> set e"
    and "\<exists>b. e = CHR ''&'' # b \<and> CHR ''&'' \<notin> set b" by auto
qed

text \<open>
  What the escaping step guarantees for every text: in its result every ampersand begins
  a reference that the pattern matches. The escaped ampersands are such references, the
  restored entities are, and restoring a placeholder (which starts with an underscore)
  cannot cut into a reference, since a reference contains no underscore.
\<close>

lemma ampersands_valid_drop: "ampersands_valid s \<Longrightarrow> ampersands_valid (drop k s)"
proof (induction s arbitrary: k)
  case Nil
  then show ?case by simp
next
  case (Cons c s)
  then show ?case by (cases k) auto
qed

lemma ampersands_valid_plain:
  "CHR ''&'' \<notin> set b \<Longrightarrow> ampersands_valid (b @ t) = ampersands_valid t"
  by (induction b) auto

lemma ampersands_valid_entity:
  assumes "is_entity e" and "ampersands_valid t"
  shows "ampersands_valid (e @ t)"
proof -
  from assms(1) have m: "match_entity (e @ t) = Some (e, t)"
    by (simp add: is_entity_def)
  from match_entity_SomeD(4)[OF m] obtain b where b: "e = CHR ''&'' # b" "CHR ''&'' \<notin> set b"
    by blast
  show ?thesis
    using m assms(2) b by (simp add: ampersands_valid_plain)
qed

lemma replace_str_skip:
  assumes "old \<noteq> []" and "hd old \<notin> set pre"
  shows "replace_str old new (pre @ t) = pre @ replace_str old new t"
  using assms(2)
proof (induction pre)
  case Nil
  then show ?case by simp
next
  case (Cons c pre)
  from Cons.prems have "c \<noteq> hd old" by auto
  then have "\<not> startswith (c # pre @ t) old"
    using assms(1) by (cases old) auto
  with Cons assms(1) show ?case by simp
qed

lemma replace_str_valid:
  "old \<noteq> [] \<Longrightarrow> hd old = CHR ''_'' \<Longrightarrow> is_entity new \<Longrightarrow> ampersands_valid t
     \<Longrightarrow> ampersands_valid (replace_str old new t)"
proof (induction old new t rule: replace_str.induct)
  case (1 old new)
  then show ?case by simp
next
  case (2 old new c s)
  note ne = \<open>old \<noteq> []\<close> and hd = \<open>hd old = CHR ''_''\<close> and ent = \<open>is_entity new\<close>
    and valid = \<open>ampersands_valid (c # s)\<close>
  show ?case
  proof (cases "startswith (c # s) old")
    case True
    have "ampersands_valid (drop (length old) (c # s))"
      using valid by (rule ampersands_valid_drop)
    from "2.IH"(2)[OF ne True ne hd ent this]
    have "ampersands_valid (replace_str old new (drop (length old) (c # s)))" .
    then have "ampersands_valid (new @ replace_str old new (drop (length old) (c # s)))"
      using ent by (intro ampersands_valid_entity)
    then show ?thesis using True ne by simp
  next
    case False
    from valid have vs: "ampersands_valid s" by simp
    from "2.IH"(3)[OF ne False ne hd ent vs]
    have ih: "ampersands_valid (replace_str old new s)" .
    have res: "replace_str old new (c # s) = c # replace_str old new s"
      using False ne by simp
    show ?thesis
    proof (cases "c = CHR ''&''")
      case nc: False
      then show ?thesis using ih res by simp
    next
      case True
      with valid obtain e rest where m: "match_entity (c # s) = Some (e, rest)"
        by auto
      from match_entity_SomeD[OF m] obtain b where cs: "c # s = e @ rest" and e: "is_entity e"
        and u: "CHR ''_'' \<notin> set e" and b: "e = CHR ''&'' # b"
        by blast
      from cs b have s: "s = b @ rest" by simp
      have "hd old \<notin> set b" using u b hd by simp
      from replace_str_skip[OF ne this, of new rest]
      have "replace_str old new s = b @ replace_str old new rest"
        unfolding s .
      then have eq: "c # replace_str old new s = e @ replace_str old new rest"
        using b True by simp
      have "match_entity (c # replace_str old new s) \<noteq> None"
        unfolding eq using e by (simp add: is_entity_def)
      then show ?thesis
        unfolding res using ih True by auto
    qed
  qed
qed

lemma amp_is_entity: "is_entity ''&amp;''"
  using entity_nameI[of "CHR ''a''" "''mp''"]
  by (simp add: is_alpha_def is_alnum_def)

lemma escape_all_valid: "ampersands_valid (replace_str ''&'' ''&amp;'' t)"
proof (induction t)
  case Nil
  then show ?case by simp
next
  case (Cons c t)
  show ?case
  proof (cases "c = CHR ''&''")
    case True
    have "ampersands_valid (''&amp;'' @ replace_str ''&'' ''&amp;'' t)"
      using amp_is_entity Cons by (rule ampersands_valid_entity)
    then show ?thesis using True by simp
  next
    case False
    then show ?thesis using Cons by simp
  qed
qed

lemma placeholder_head: "placeholder n \<noteq> []" "hd (placeholder n) = CHR ''_''"
  by (simp_all add: placeholder_def)

lemma protect_entities_map:
  "protect_entities n input = (protected, entity_map) \<Longrightarrow>
   \<forall>(p, e)\<in>set entity_map. p \<noteq> [] \<and> hd p = CHR ''_'' \<and> is_entity e"
proof (induction n input arbitrary: protected entity_map rule: protect_entities.induct)
  case (1 n)
  then show ?case by simp
next
  case (2 n c s)
  show ?case
  proof (cases "match_entity (c # s)")
    case None
    with "2.prems" obtain out where "protect_entities n s = (out, entity_map)"
      by (auto split: prod.splits)
    from "2.IH"(1)[OF None this] show ?thesis .
  next
    case (Some a)
    obtain entity rest where a: "a = (entity, rest)" by (cases a)
    with "2.prems" Some obtain out m where r: "protect_entities (Suc n) rest = (out, m)"
      and em: "entity_map = (placeholder n, entity) # m"
      by (auto split: prod.splits)
    from "2.IH"(2)[OF Some a[symmetric] r]
    have "\<forall>(p, e)\<in>set m. p \<noteq> [] \<and> hd p = CHR ''_'' \<and> is_entity e" .
    moreover have "is_entity entity"
      using match_entity_SomeD(2)[OF Some[unfolded a]] .
    ultimately show ?thesis
      unfolding em using placeholder_head by simp
  qed
qed

lemma restore_valid:
  "\<forall>(p, e)\<in>set entity_map. p \<noteq> [] \<and> hd p = CHR ''_'' \<and> is_entity e \<Longrightarrow> ampersands_valid t
     \<Longrightarrow> ampersands_valid (fold (\<lambda>(placeholder, entity) t. replace_str placeholder entity t) entity_map t)"
proof (induction entity_map arbitrary: t)
  case Nil
  then show ?case by simp
next
  case (Cons pe entity_map)
  obtain p e where pe: "pe = (p, e)" by (cases pe)
  from Cons.prems(1) pe have "p \<noteq> []" "hd p = CHR ''_''" "is_entity e" by auto
  then have "ampersands_valid (replace_str p e t)"
    using Cons.prems(2) by (intro replace_str_valid)
  with Cons show ?case by (simp add: pe)
qed

lemma escape_ampersands_valid: "ampersands_valid (escape_ampersands input)"
proof -
  obtain protected entity_map where p: "protect_entities 0 input = (protected, entity_map)"
    by (cases "protect_entities 0 input")
  show ?thesis
    unfolding escape_ampersands_def p
    using restore_valid[OF protect_entities_map[OF p] escape_all_valid] by simp
qed

lemma escape_step_valid: "ampersands_valid (escape_step input)"
  by (simp add: escape_step_def escape_ampersands_valid)

text \<open>
  C9 fails on a text that contains what looks like a placeholder. The literal
  \<open>___ENTITY_0\<close> in front of the second reference makes the first placeholder occur a
  second time, across the start of the second placeholder; restoring the first reference
  destroys the second placeholder, and the reference \<open>&gt;\<close> of the input is lost.
\<close>

theorem escape_step_loses_reference:
  "escape_step ''&lt;___ENTITY_0&gt;'' = ''&lt;&lt;ENTITY_1___''
   \<and> escape_as_specified ''&lt;___ENTITY_0&gt;'' = ''&lt;___ENTITY_0&gt;''
   \<and> match_entity ''&gt;'' = Some (''&gt;'', [])"
  by code_simp

end
